theory Spec2Isabelle
  imports Complex_Main
begin

section \<open>The DOM fragment used by \<^verbatim>\<open>src/ui/render.ts\<close>\<close>

text \<open>
  A node is a text node or an element with a tag name, its class list and its child
  nodes in document order.  A container is represented by the list of its child nodes:
  \<^verbatim>\<open>appendText\<close>, \<^verbatim>\<open>createEl\<close> and \<^verbatim>\<open>appendChild\<close> all add one node at the end
  of that list.  Nodes carry no identity: an element handed over as a value is taken to
  be detached and distinct from every other node of the render.
\<close>

datatype node =
    Text string
  | Element string "string list" "node list"

datatype dom_exception = NotFoundError

fun isElement :: "node \<Rightarrow> bool" where
  "isElement (Text t) = False"
| "isElement (Element g cls kids) = True"

text \<open>\<^verbatim>\<open>el.children\<close>: the child elements, text nodes left out.\<close>

definition children :: "node list \<Rightarrow> node list" where
  "children ns = filter isElement ns"

text \<open>
  \<^verbatim>\<open>el.querySelector(tag)\<close>: the first descendant element with that tag in document
  order (depth first, an element before its own descendants), as the path of child
  indices that leads to it from \<^verbatim>\<open>el\<close>; \<open>None\<close> is the source's \<^verbatim>\<open>null\<close>.
\<close>

fun querySelectorFrom :: "string \<Rightarrow> nat \<Rightarrow> node list \<Rightarrow> nat list option" where
  "querySelectorFrom tag i [] = None"
| "querySelectorFrom tag i (Text t # ns) = querySelectorFrom tag (Suc i) ns"
| "querySelectorFrom tag i (Element g cls kids # ns) =
     (if g = tag then Some [i]
      else case querySelectorFrom tag 0 kids of
             Some p \<Rightarrow> Some (i # p)
           | None \<Rightarrow> querySelectorFrom tag (Suc i) ns)"

definition querySelector :: "string \<Rightarrow> node list \<Rightarrow> nat list option" where
  "querySelector tag ns = querySelectorFrom tag 0 ns"

text \<open>The child nodes of the node at a path, and the same forest with them replaced.\<close>

fun childNodesAt :: "nat list \<Rightarrow> node list \<Rightarrow> node list" where
  "childNodesAt [] ns = ns"
| "childNodesAt (i # p) ns =
     (if i < length ns
      then (case ns ! i of
              Element g cls kids \<Rightarrow> childNodesAt p kids
            | Text t \<Rightarrow> [])
      else [])"

fun setChildNodesAt :: "nat list \<Rightarrow> node list \<Rightarrow> node list \<Rightarrow> node list" where
  "setChildNodesAt [] new ns = new"
| "setChildNodesAt (i # p) new ns =
     (if i < length ns
      then (case ns ! i of
              Element g cls kids \<Rightarrow> ns[i := Element g cls (setChildNodesAt p new kids)]
            | Text t \<Rightarrow> ns)
      else ns)"

text \<open>
  \<^verbatim>\<open>while (paragraph.firstChild) subcontainer.appendChild(paragraph.firstChild)\<close>:
  one step per remaining child of the paragraph; \<^verbatim>\<open>appendChild\<close> takes the node out of
  the paragraph and puts it at the end of the subcontainer, which leaves the path to
  the paragraph as it was.
\<close>

fun moveChildren :: "nat list \<Rightarrow> node list \<Rightarrow> node list \<Rightarrow> node list" where
  "moveChildren p [] sub = sub"
| "moveChildren p (k # ks) sub = moveChildren p ks (setChildNodesAt p ks sub @ [k])"

text \<open>
  \<^verbatim>\<open>subcontainer.removeChild(paragraph)\<close>: removes a direct child; the DOM raises
  \<^verbatim>\<open>NotFoundError\<close> when the node is not a child of the subcontainer.
\<close>

fun removeChild :: "nat list \<Rightarrow> node list \<Rightarrow> dom_exception + node list" where
  "removeChild [i] ns = Inr (take i ns @ drop (Suc i) ns)"
| "removeChild p ns = Inl NotFoundError"


section \<open>Values, settings and the external collaborators\<close>

text \<open>
  The payloads of the date, duration, link and number variants belong to libraries
  outside the repository; the renderer only hands them to formatting functions.  A date
  is represented by its instant and a duration by its magnitude (both in milliseconds),
  a link by its target, optional display text and embed flag.
\<close>

type_synonym datetime = int
type_synonym duration = int
type_synonym jsnumber = real

datatype link = Link string "string option" bool

type_synonym addr = nat

text \<open>
  A \<^verbatim>\<open>Literal\<close> as the predicates of \<^verbatim>\<open>Values\<close> classify it, in the order of the
  source's \<^verbatim>\<open>if\<close> chain.  Arrays, \<^verbatim>\<open>DataArray\<close>s and objects are JavaScript references:
  \<open>LRef a\<close> points into a store of containers, so a container may contain itself.
  \<open>LOther j\<close> is a value that no predicate accepts, with the text
  \<^verbatim>\<open>JSON.stringify\<close> gives for it.
\<close>

datatype literal =
    LNull
  | LDate datetime
  | LDuration duration
  | LString string
  | LBoolean bool
  | LNumber jsnumber
  | LLink link
  | LHtml node
  | LFunction
  | LRef addr
  | LOther string

datatype array_kind = NativeArray | DataArray

text \<open>
  A stored container: an array (native or \<^verbatim>\<open>DataArray\<close>) with its elements, or an
  object with \<^verbatim>\<open>field?.constructor?.name\<close> (\<open>None\<close> when that is \<^verbatim>\<open>undefined\<close>) and
  \<^verbatim>\<open>Object.entries(field)\<close>.
\<close>

datatype container =
    HArray array_kind "literal list"
  | HObject "string option" "(string \<times> literal) list"

datatype ValueRenderContext = CtxRoot | CtxList

text \<open>
  What stays the same through a whole render: \<^verbatim>\<open>originFile\<close>, the two settings that
  are read, and the functions imported from outside \<^verbatim>\<open>render.ts\<close>.
  \<open>renderMarkdown E markdown sourcePath\<close> is the list of nodes that
  \<^verbatim>\<open>MarkdownRenderer.renderMarkdown\<close> leaves in the fresh span it is given.
\<close>

record env =
  originFile :: string
  maxRecursiveRenderDepth :: nat
  renderNullAs :: string
  renderMarkdown :: "string \<Rightarrow> string \<Rightarrow> node list"
  renderMinimalDate :: "datetime \<Rightarrow> string"
  renderMinimalDuration :: "duration \<Rightarrow> string"
  markdown :: "link \<Rightarrow> string"
  numberToString :: "jsnumber \<Rightarrow> string"

text \<open>
  One invocation of \<^verbatim>\<open>renderValue\<close>: its \<^verbatim>\<open>field\<close>, \<^verbatim>\<open>expandList\<close>, \<^verbatim>\<open>context\<close> and
  \<^verbatim>\<open>depth\<close> arguments, and the invocations made while it ran, in call order.
\<close>

datatype invocation =
  Call (fieldOf: literal) (expandListOf: bool) (contextOf: ValueRenderContext) (depthOf: nat)
       (subcalls: "invocation list")

text \<open>
  The state a render runs in: the store holding the containers of the value, and a
  record of the invocations of \<^verbatim>\<open>renderValue\<close> made so far by the running call.
\<close>

record rstate =
  heap :: "addr \<Rightarrow> container"
  calls :: "invocation list"

section \<open>\<^verbatim>\<open>renderCompactMarkdown\<close>\<close>

text \<open>
  The result is the container's child nodes when the function returns or raises,
  and the exception if it raised.
\<close>

definition renderCompactMarkdown ::
  "env \<Rightarrow> string \<Rightarrow> node list \<Rightarrow> node list \<times> dom_exception option" where
  "renderCompactMarkdown E md cont =
     (let subcontainer = renderMarkdown E md (originFile E);
          paragraph = querySelector ''p'' subcontainer
      in case paragraph of
           Some p \<Rightarrow>
             if length (children subcontainer) = 1 then
               (let moved = moveChildren p (childNodesAt p subcontainer) subcontainer
                in case removeChild p moved of
                     Inr sub \<Rightarrow> (cont @ [Element ''span'' [] sub], None)
                   | Inl e \<Rightarrow> (cont @ [Element ''span'' [] moved], Some e))
             else (cont @ [Element ''span'' [] subcontainer], None)
         | None \<Rightarrow> (cont @ [Element ''span'' [] subcontainer], None))"

section \<open>\<^verbatim>\<open>renderValue\<close>\<close>

text \<open>
  \<^verbatim>\<open>field?.constructor?.name && field?.constructor?.name != "Object"\<close>: the name is
  defined, not the empty string (which JavaScript takes as false), and not \<^verbatim>\<open>Object\<close>.
\<close>

definition namedClass :: "string option \<Rightarrow> bool" where
  "namedClass ctor = (ctor \<noteq> None \<and> ctor \<noteq> Some [] \<and> ctor \<noteq> Some ''Object'')"

text \<open>
  \<^verbatim>\<open>renderValue\<close> and its four \<^verbatim>\<open>for\<close> loops.  Every function takes the child nodes of
  the element it appends to and the state, and returns the child nodes, the exception
  if one was raised, and the state.  An exception ends the enclosing loops at once
  (\<^verbatim>\<open>await\<close> rethrows it); an element created with \<^verbatim>\<open>createEl\<close> is already attached
  then, so it is part of the result with what it holds at that moment.

  The loops run over the elements read from the store when the loop starts.
  Recursion ends because of the depth guard alone: the store may be cyclic.

  The record of invocations is bookkeeping for the statements about calls and has no
  part in what is rendered: an invocation starts with an empty record for the calls it
  makes, and when it ends it adds itself, with those calls, to its caller's record.
\<close>

function
  renderValue :: "env \<Rightarrow> literal \<Rightarrow> node list \<Rightarrow> bool \<Rightarrow> ValueRenderContext \<Rightarrow> nat \<Rightarrow> rstate
      \<Rightarrow> node list \<times> dom_exception option \<times> rstate"
and
  forArrayExpand :: "env \<Rightarrow> literal list \<Rightarrow> node list \<Rightarrow> bool \<Rightarrow> nat \<Rightarrow> rstate
      \<Rightarrow> node list \<times> dom_exception option \<times> rstate"
and
  forArrayInline :: "env \<Rightarrow> literal list \<Rightarrow> bool \<Rightarrow> node list \<Rightarrow> bool \<Rightarrow> nat \<Rightarrow> rstate
      \<Rightarrow> node list \<times> dom_exception option \<times> rstate"
and
  forObjectExpand :: "env \<Rightarrow> (string \<times> literal) list \<Rightarrow> node list \<Rightarrow> bool \<Rightarrow> nat \<Rightarrow> rstate
      \<Rightarrow> node list \<times> dom_exception option \<times> rstate"
and
  forObjectInline :: "env \<Rightarrow> (string \<times> literal) list \<Rightarrow> bool \<Rightarrow> node list \<Rightarrow> bool \<Rightarrow> nat \<Rightarrow> rstate
      \<Rightarrow> node list \<times> dom_exception option \<times> rstate"
where
  "renderValue E field cont expandList context depth s =
     (let s0 = s\<lparr>calls := []\<rparr>;
          (c, x, s') =
        (if depth > maxRecursiveRenderDepth E then (cont @ [Text ''...''], None, s0)
         else case field of
           LNull \<Rightarrow>
             (case renderCompactMarkdown E (renderNullAs E) cont of
                (c, x) \<Rightarrow> (c, x, s0))
         | LDate d \<Rightarrow> (cont @ [Text (renderMinimalDate E d)], None, s0)
         | LDuration d \<Rightarrow> (cont @ [Text (renderMinimalDuration E d)], None, s0)
         | LString str \<Rightarrow>
             (case renderCompactMarkdown E str cont of
                (c, x) \<Rightarrow> (c, x, s0))
         | LBoolean b \<Rightarrow>
             (case renderCompactMarkdown E (if b then ''true'' else ''false'') cont of
                (c, x) \<Rightarrow> (c, x, s0))
         | LNumber n \<Rightarrow>
             (case renderCompactMarkdown E (numberToString E n) cont of
                (c, x) \<Rightarrow> (c, x, s0))
         | LLink l \<Rightarrow>
             (case renderCompactMarkdown E (markdown E l) cont of
                (c, x) \<Rightarrow> (c, x, s0))
         | LHtml el \<Rightarrow> (cont @ [el], None, s0)
         | LFunction \<Rightarrow> (cont @ [Text ''<function>''], None, s0)
         | LRef a \<Rightarrow>
             (case heap s0 a of
                HArray kind elems \<Rightarrow>
                  if expandList then
                    (case forArrayExpand E elems [] expandList depth s0 of
                       (lis, x, s') \<Rightarrow>
                         (cont @ [Element ''ul''
                                    [''dataview'', ''dataview-ul'',
                                     if context = CtxList then ''dataview-result-list-ul''
                                     else ''dataview-result-list-root-ul'']
                                    lis], x, s'))
                  else if length elems = 0 then
                    (cont @ [Text ''<empty list>''], None, s0)
                  else
                    (case forArrayInline E elems True [] expandList depth s0 of
                       (kids, x, s') \<Rightarrow>
                         (cont @ [Element ''span'' [''dataview'', ''dataview-result-list-span''] kids],
                          x, s'))
              | HObject ctor entries \<Rightarrow>
                  if namedClass ctor then
                    (cont @ [Text (''<'' @ the ctor @ ''>'')], None, s0)
                  else if expandList then
                    (case forObjectExpand E entries [] expandList depth s0 of
                       (lis, x, s') \<Rightarrow>
                         (cont @ [Element ''ul''
                                    [''dataview'', ''dataview-ul'', ''dataview-result-object-ul'']
                                    lis], x, s'))
                  else if length entries = 0 then
                    (cont @ [Text ''<empty object>''], None, s0)
                  else
                    (case forObjectInline E entries True [] expandList depth s0 of
                       (kids, x, s') \<Rightarrow>
                         (cont @ [Element ''span'' [''dataview'', ''dataview-result-object-span''] kids],
                          x, s')))
         | LOther json \<Rightarrow> (cont @ [Text (''Unrecognized: '' @ json)], None, s0))
      in (c, x, s'\<lparr>calls := calls s @ [Call field expandList context depth (calls s')]\<rparr>))"
| "forArrayExpand E [] lis expandList depth s = (lis, None, s)"
| "forArrayExpand E (child # rest) lis expandList depth s =
     (case renderValue E child [] expandList CtxList (depth + 1) s of
        (li, Some e, s') \<Rightarrow>
          (lis @ [Element ''li'' [''dataview-result-list-li''] li], Some e, s')
      | (li, None, s') \<Rightarrow>
          forArrayExpand E rest (lis @ [Element ''li'' [''dataview-result-list-li''] li])
            expandList depth s')"
| "forArrayInline E [] first spanEl expandList depth s = (spanEl, None, s)"
| "forArrayInline E (val # rest) first spanEl expandList depth s =
     (case renderValue E val (if first then spanEl else spanEl @ [Text '', ''])
             expandList CtxList (depth + 1) s of
        (spanEl', Some e, s') \<Rightarrow> (spanEl', Some e, s')
      | (spanEl', None, s') \<Rightarrow> forArrayInline E rest False spanEl' expandList depth s')"
| "forObjectExpand E [] lis expandList depth s = (lis, None, s)"
| "forObjectExpand E ((key, val) # rest) lis expandList depth s =
     (case renderValue E val [Text (key @ '': '')] expandList CtxList (depth + 1) s of
        (li, Some e, s') \<Rightarrow>
          (lis @ [Element ''li'' [''dataview'', ''dataview-li'', ''dataview-result-object-li''] li],
           Some e, s')
      | (li, None, s') \<Rightarrow>
          forObjectExpand E rest
            (lis @ [Element ''li'' [''dataview'', ''dataview-li'', ''dataview-result-object-li''] li])
            expandList depth s')"
| "forObjectInline E [] first spanEl expandList depth s = (spanEl, None, s)"
| "forObjectInline E ((key, val) # rest) first spanEl expandList depth s =
     (case renderValue E val ((if first then spanEl else spanEl @ [Text '', '']) @ [Text (key @ '': '')])
             expandList CtxList (depth + 1) s of
        (spanEl', Some e, s') \<Rightarrow> (spanEl', Some e, s')
      | (spanEl', None, s') \<Rightarrow> forObjectInline E rest False spanEl' expandList depth s')"
  by pat_completeness auto


text \<open>
  The depth guard is what bounds the recursion: a call at depth \<open>d\<close> only calls a loop
  when \<open>d\<close> is at most the configured maximum, and the loop calls back at \<open>d + 1\<close>.
\<close>

termination
  by (relation "measures
        [case_sum
           (case_sum (\<lambda>(E, field, cont, expandList, context, depth, s).
                         2 * (Suc (maxRecursiveRenderDepth E) - depth))
                     (\<lambda>(E, elems, lis, expandList, depth, s).
                         2 * (maxRecursiveRenderDepth E - depth) + 1))
           (case_sum (\<lambda>(E, elems, first, spanEl, expandList, depth, s).
                         2 * (maxRecursiveRenderDepth E - depth) + 1)
              (case_sum (\<lambda>(E, entries, lis, expandList, depth, s).
                           2 * (maxRecursiveRenderDepth E - depth) + 1)
                        (\<lambda>(E, entries, first, spanEl, expandList, depth, s).
                           2 * (maxRecursiveRenderDepth E - depth) + 1))),
         case_sum
           (case_sum (\<lambda>(E, field, cont, expandList, context, depth, s). 0)
                     (\<lambda>(E, elems, lis, expandList, depth, s). length elems))
           (case_sum (\<lambda>(E, elems, first, spanEl, expandList, depth, s). length elems)
              (case_sum (\<lambda>(E, entries, lis, expandList, depth, s). length entries)
                        (\<lambda>(E, entries, first, spanEl, expandList, depth, s). length entries)))]")
     auto

declare renderValue.simps [simp del]


section \<open>The worker entry point, \<^verbatim>\<open>import-entry.ts\<close>\<close>

text \<open>
  \<^verbatim>\<open>evt.data\<close> of an incoming message, and the message handed to \<^verbatim>\<open>postMessage\<close>.
  Both carry a \<^verbatim>\<open>path\<close>.
\<close>

record message =
  path :: string

record 'm import_job = message +
  contents :: string
  metadata :: 'm

record 't import_result = message +
  result :: 't

text \<open>
  \<^verbatim>\<open>runImport\<close> and \<^verbatim>\<open>Transferable.transferable\<close> live outside the two source files and
  are parameters.  \<^verbatim>\<open>runImport\<close> either returns a value or raises; the handler has no
  \<^verbatim>\<open>try\<close>, so an exception leaves it before \<^verbatim>\<open>postMessage\<close> is reached.  The result is
  the list of messages posted so far and the exception that left the handler, if any.
\<close>

definition onmessage ::
  "(string \<Rightarrow> string \<Rightarrow> 'm \<Rightarrow> 'e + 'v) \<Rightarrow> ('v \<Rightarrow> 't) \<Rightarrow> 'm import_job
     \<Rightarrow> 't import_result list \<Rightarrow> 't import_result list \<times> 'e option" where
  "onmessage runImport transferable evt posted =
     (case runImport (path evt) (contents evt) (metadata evt) of
        Inl e \<Rightarrow> (posted, Some e)
      | Inr r \<Rightarrow>
          (posted @ [\<lparr>path = path evt, result = transferable r\<rparr>], None))"

section \<open>Properties of recorded invocations\<close>

text \<open>An invocation together with all invocations below it, in call order.\<close>

fun invocations :: "invocation \<Rightarrow> invocation list" where
  "invocations (Call f e c d subs) = Call f e c d subs # concat (map invocations subs)"

text \<open>
  Every call made directly by an invocation has context \<^verbatim>\<open>"list"\<close> and the caller's
  depth plus one, and so on below.
\<close>

fun listCalls :: "invocation \<Rightarrow> bool" where
  "listCalls (Call f e c d subs) =
     (\<forall>u \<in> set subs. contextOf u = CtxList \<and> depthOf u = d + 1 \<and> listCalls u)"

text \<open>An invocation whose depth exceeds \<open>k\<close> makes no calls, and so on below.\<close>

fun guardedCalls :: "nat \<Rightarrow> invocation \<Rightarrow> bool" where
  "guardedCalls k (Call f e c d subs) =
     ((k < d \<longrightarrow> subs = []) \<and> (\<forall>u \<in> set subs. guardedCalls k u))"

text \<open>What holds of an invocation made by a call that runs at depth \<open>d\<close>.\<close>

definition calledFrom :: "env \<Rightarrow> nat \<Rightarrow> invocation \<Rightarrow> bool" where
  "calledFrom E d u =
     (contextOf u = CtxList \<and> depthOf u = d + 1 \<and> listCalls u \<and>
      guardedCalls (maxRecursiveRenderDepth E) u)"

section \<open>Nesting depth of a value\<close>

text \<open>
  A value nested to depth \<open>n\<close>: from it, \<open>n\<close> steps lead down through arrays and
  through objects that \<^verbatim>\<open>renderValue\<close> traverses, each step to an element or to the
  value of an entry.
\<close>

fun nestedTo :: "(addr \<Rightarrow> container) \<Rightarrow> literal \<Rightarrow> nat \<Rightarrow> bool" where
  "nestedTo h v 0 = True"
| "nestedTo h v (Suc n) =
     (case v of
        LRef a \<Rightarrow>
          (case h a of
             HArray kind elems \<Rightarrow> (\<exists>x \<in> set elems. nestedTo h x n)
           | HObject ctor entries \<Rightarrow>
               \<not> namedClass ctor \<and> (\<exists>x \<in> set (map snd entries). nestedTo h x n))
      | _ \<Rightarrow> False)"

section \<open>The output of one element\<close>



section \<open>Example inputs\<close>

text \<open>
  A markdown renderer that does what the host's renderer does on two kinds of input:
  the block quote \<^verbatim>\<open>> q\<close> becomes a \<^verbatim>\<open>blockquote\<close> holding a paragraph, any other text
  becomes one paragraph.
\<close>

definition demoRenderer :: "string \<Rightarrow> string \<Rightarrow> node list" where
  "demoRenderer md sourcePath =
     (if md = ''> q'' then [Element ''blockquote'' [] [Element ''p'' [] [Text ''q'']]]
      else [Element ''p'' [] [Text md]])"

definition demoEnv :: "nat \<Rightarrow> env" where
  "demoEnv k =
     \<lparr>originFile = ''note.md'', maxRecursiveRenderDepth = k, renderNullAs = ''-'',
      renderMarkdown = demoRenderer, renderMinimalDate = (\<lambda>d. ''2021-01-01''),
      renderMinimalDuration = (\<lambda>d. ''1 day''), markdown = (\<lambda>l. ''[[Note A]]''),
      numberToString = (\<lambda>n. ''0'')\<rparr>"

text \<open>
  A store with an array that contains itself (0), an empty array (1), a plain object
  (2), an instance of a class that refers to itself (3), a \<^verbatim>\<open>DataArray\<close> (4) and
  a one-element array (5).
\<close>

definition demoHeap :: "addr \<Rightarrow> container" where
  "demoHeap a =
     (if a = 0 then HArray NativeArray [LString ''x'', LRef 0]
      else if a = 1 then HArray NativeArray []
      else if a = 2 then HObject (Some ''Object'') [(''k'', LString ''v'')]
      else if a = 3 then HObject (Some ''Widget'') [(''self'', LRef 3)]
      else if a = 4 then HArray DataArray [LString ''a'', LString ''b'', LString ''c'']
      else if a = 5 then HArray NativeArray [LString ''x'']
      else HObject None [])"

definition demoState :: rstate where
  "demoState = \<lparr>heap = demoHeap, calls = []\<rparr>"

section \<open>What \<^verbatim>\<open>renderCompactMarkdown\<close> does with the rendered markdown\<close>

text \<open>
  Without a paragraph, or with a number of child elements other than one, the rendered
  nodes stay as they are.  An exception is raised exactly when the single child element
  has the first paragraph somewhere below it.
\<close>

lemma renderCompactMarkdown_unchanged:
  assumes "querySelector ''p'' (renderMarkdown E md (originFile E)) = None \<or>
           length (children (renderMarkdown E md (originFile E))) \<noteq> 1"
  shows "renderCompactMarkdown E md cont =
           (cont @ [Element ''span'' [] (renderMarkdown E md (originFile E))], None)"
  using assms by (auto simp: renderCompactMarkdown_def Let_def split: option.split)

lemma removeChild_raises: "(\<exists>e. removeChild p ns = Inl e) \<longleftrightarrow> length p \<noteq> 1"
  by (cases "(p, ns)" rule: removeChild.cases) auto

lemma renderCompactMarkdown_raises_iff:
  "snd (renderCompactMarkdown E md cont) \<noteq> None \<longleftrightarrow>
     length (children (renderMarkdown E md (originFile E))) = 1 \<and>
     (\<exists>p. querySelector ''p'' (renderMarkdown E md (originFile E)) = Some p \<and> length p \<noteq> 1)"
  using removeChild_raises
  by (auto simp: renderCompactMarkdown_def Let_def split: option.split sum.split)
     (metis sum.exhaust sum.distinct(1))+

lemma querySelectorFrom_text_prefix:
  assumes "\<forall>n \<in> set pre. \<not> isElement n"
  shows "querySelectorFrom tag i (pre @ Element tag cls kids # post) = Some [i + length pre]"
  using assms
proof (induction pre arbitrary: i)
  case Nil
  then show ?case by simp
next
  case (Cons n pre)
  then show ?case by (cases n) auto
qed

lemma children_single:
  assumes "\<forall>n \<in> set pre. \<not> isElement n" and "\<forall>n \<in> set post. \<not> isElement n"
  shows "children (pre @ Element g cls kids # post) = [Element g cls kids]"
  using assms by (simp add: children_def filter_empty_conv [THEN iffD2])

lemma moveChildren_direct_child:
  "moveChildren [length pre] ks (pre @ Element g cls ks # post) =
     pre @ Element g cls [] # post @ ks"
proof (induction ks arbitrary: post)
  case Nil
  then show ?case by simp
next
  case (Cons k ks)
  have "moveChildren [length pre] (k # ks) (pre @ Element g cls (k # ks) # post) =
        moveChildren [length pre] ks (pre @ Element g cls ks # (post @ [k]))"
    by (simp add: nth_append)
  then show ?case using Cons.IH [of "post @ [k]"] by simp
qed

text \<open>
  When the paragraph is the one child element of the wrapper, with text nodes around
  it at most, its children are moved to the end of the wrapper and it is removed.
\<close>

lemma renderCompactMarkdown_unwraps:
  assumes "renderMarkdown E md (originFile E) = pre @ Element ''p'' cls kids # post"
      and "\<forall>n \<in> set pre. \<not> isElement n" and "\<forall>n \<in> set post. \<not> isElement n"
  shows "renderCompactMarkdown E md cont =
           (cont @ [Element ''span'' [] (pre @ post @ kids)], None)"
proof -
  have q: "querySelector ''p'' (pre @ Element ''p'' cls kids # post) = Some [length pre]"
    using querySelectorFrom_text_prefix [OF assms(2), of "''p''" 0] by (simp add: querySelector_def)
  have c: "length (children (pre @ Element ''p'' cls kids # post)) = 1"
    using children_single [OF assms(2,3)] by simp
  have k: "childNodesAt [length pre] (pre @ Element ''p'' cls kids # post) = kids"
    by (simp add: nth_append)
  show ?thesis
    using assms(1) q c k moveChildren_direct_child [of pre kids "''p''" cls post]
    by (simp add: renderCompactMarkdown_def Let_def)
qed

section \<open>The branches of \<^verbatim>\<open>renderValue\<close>\<close>

text \<open>One equation for each way through the body, and the case distinction they cover.\<close>

lemma renderValue_guard:
  "maxRecursiveRenderDepth E < depth \<Longrightarrow>
   renderValue E field cont expandList ctx depth s =
     (cont @ [Text ''...''], None, s\<lparr>calls := calls s @ [Call field expandList ctx depth []]\<rparr>)"
  by (simp add: renderValue.simps)

lemma renderValue_array_expand:
  "\<not> maxRecursiveRenderDepth E < depth \<Longrightarrow> heap s a = HArray kind elems \<Longrightarrow>
   renderValue E (LRef a) cont True ctx depth s =
     (case forArrayExpand E elems [] True depth (s\<lparr>calls := []\<rparr>) of
        (lis, x, s1) \<Rightarrow>
          (cont @ [Element ''ul''
                     [''dataview'', ''dataview-ul'',
                      if ctx = CtxList then ''dataview-result-list-ul''
                      else ''dataview-result-list-root-ul''] lis],
           x, s1\<lparr>calls := calls s @ [Call (LRef a) True ctx depth (calls s1)]\<rparr>))"
  by (simp add: renderValue.simps Let_def split: prod.split)

lemma renderValue_array_inline:
  "\<not> maxRecursiveRenderDepth E < depth \<Longrightarrow> heap s a = HArray kind elems \<Longrightarrow> elems \<noteq> [] \<Longrightarrow>
   renderValue E (LRef a) cont False ctx depth s =
     (case forArrayInline E elems True [] False depth (s\<lparr>calls := []\<rparr>) of
        (kids, x, s1) \<Rightarrow>
          (cont @ [Element ''span'' [''dataview'', ''dataview-result-list-span''] kids],
           x, s1\<lparr>calls := calls s @ [Call (LRef a) False ctx depth (calls s1)]\<rparr>))"
  by (simp add: renderValue.simps Let_def split: prod.split)

lemma renderValue_array_empty:
  "\<not> maxRecursiveRenderDepth E < depth \<Longrightarrow> heap s a = HArray kind [] \<Longrightarrow>
   renderValue E (LRef a) cont False ctx depth s =
     (cont @ [Text ''<empty list>''], None,
      s\<lparr>calls := calls s @ [Call (LRef a) False ctx depth []]\<rparr>)"
  by (simp add: renderValue.simps Let_def split: prod.split)

lemma renderValue_object_foreign:
  "\<not> maxRecursiveRenderDepth E < depth \<Longrightarrow> heap s a = HObject ctor entries \<Longrightarrow> namedClass ctor \<Longrightarrow>
   renderValue E (LRef a) cont expandList ctx depth s =
     (cont @ [Text (''<'' @ the ctor @ ''>'')], None,
      s\<lparr>calls := calls s @ [Call (LRef a) expandList ctx depth []]\<rparr>)"
  by (simp add: renderValue.simps Let_def split: prod.split)

lemma renderValue_object_expand:
  "\<not> maxRecursiveRenderDepth E < depth \<Longrightarrow> heap s a = HObject ctor entries \<Longrightarrow> \<not> namedClass ctor \<Longrightarrow>
   renderValue E (LRef a) cont True ctx depth s =
     (case forObjectExpand E entries [] True depth (s\<lparr>calls := []\<rparr>) of
        (lis, x, s1) \<Rightarrow>
          (cont @ [Element ''ul'' [''dataview'', ''dataview-ul'', ''dataview-result-object-ul''] lis],
           x, s1\<lparr>calls := calls s @ [Call (LRef a) True ctx depth (calls s1)]\<rparr>))"
  by (simp add: renderValue.simps Let_def split: prod.split)

lemma renderValue_object_inline:
  "\<not> maxRecursiveRenderDepth E < depth \<Longrightarrow> heap s a = HObject ctor entries \<Longrightarrow> \<not> namedClass ctor \<Longrightarrow>
   entries \<noteq> [] \<Longrightarrow>
   renderValue E (LRef a) cont False ctx depth s =
     (case forObjectInline E entries True [] False depth (s\<lparr>calls := []\<rparr>) of
        (kids, x, s1) \<Rightarrow>
          (cont @ [Element ''span'' [''dataview'', ''dataview-result-object-span''] kids],
           x, s1\<lparr>calls := calls s @ [Call (LRef a) False ctx depth (calls s1)]\<rparr>))"
  by (simp add: renderValue.simps Let_def split: prod.split)

lemma renderValue_object_empty:
  "\<not> maxRecursiveRenderDepth E < depth \<Longrightarrow> heap s a = HObject ctor [] \<Longrightarrow> \<not> namedClass ctor \<Longrightarrow>
   renderValue E (LRef a) cont False ctx depth s =
     (cont @ [Text ''<empty object>''], None,
      s\<lparr>calls := calls s @ [Call (LRef a) False ctx depth []]\<rparr>)"
  by (simp add: renderValue.simps Let_def split: prod.split)


lemma renderValue_leaf_aux:
  assumes "\<not> maxRecursiveRenderDepth E < depth" and "\<And>a. field \<noteq> LRef a"
  shows "renderValue E field cont expandList ctx depth s =
           (cont @ fst (renderValue E field [] expandList' ctx' depth t),
            fst (snd (renderValue E field [] expandList' ctx' depth t)),
            s\<lparr>calls := calls s @ [Call field expandList ctx depth []]\<rparr>)"
proof (cases field)
  case (LRef a)
  then show ?thesis using assms(2) by simp
qed (use assms(1) in \<open>simp_all add: renderValue.simps renderCompactMarkdown_def Let_def
                          split: prod.split option.split sum.split\<close>)

text \<open>
  A value that is not a reference is rendered without recursion, and what is appended
  depends on the value and the settings only.
\<close>

lemma renderValue_leaf:
  assumes "\<not> maxRecursiveRenderDepth E < depth" and "\<And>a. field \<noteq> LRef a"
  obtains out x where
    "\<And>cont expandList ctx s.
       renderValue E field cont expandList ctx depth s =
         (cont @ out, x, s\<lparr>calls := calls s @ [Call field expandList ctx depth []]\<rparr>)"
  using renderValue_leaf_aux [OF assms, where expandList' = True and ctx' = CtxRoot
          and t = "\<lparr>heap = (\<lambda>a. HObject None []), calls = []\<rparr>"]
  by blast

lemma renderValue_cases
  [case_names guard leaf arrayExpand arrayEmpty arrayInline namedClass objectExpand objectEmpty
     objectInline]:
  fixes E :: env and field :: literal and depth :: nat and s :: rstate and expandList :: bool
  obtains
    "maxRecursiveRenderDepth E < depth"
  | "\<not> maxRecursiveRenderDepth E < depth" "\<And>a. field \<noteq> LRef a"
  | a kind elems where "\<not> maxRecursiveRenderDepth E < depth" "field = LRef a"
      "heap s a = HArray kind elems" "expandList"
  | a kind where "\<not> maxRecursiveRenderDepth E < depth" "field = LRef a"
      "heap s a = HArray kind []" "\<not> expandList"
  | a kind elems where "\<not> maxRecursiveRenderDepth E < depth" "field = LRef a"
      "heap s a = HArray kind elems" "\<not> expandList" "elems \<noteq> []"
  | a ctor entries where "\<not> maxRecursiveRenderDepth E < depth" "field = LRef a"
      "heap s a = HObject ctor entries" "namedClass ctor"
  | a ctor entries where "\<not> maxRecursiveRenderDepth E < depth" "field = LRef a"
      "heap s a = HObject ctor entries" "\<not> namedClass ctor" "expandList"
  | a ctor where "\<not> maxRecursiveRenderDepth E < depth" "field = LRef a"
      "heap s a = HObject ctor []" "\<not> namedClass ctor" "\<not> expandList"
  | a ctor entries where "\<not> maxRecursiveRenderDepth E < depth" "field = LRef a"
      "heap s a = HObject ctor entries" "\<not> namedClass ctor" "\<not> expandList" "entries \<noteq> []"
proof (cases "maxRecursiveRenderDepth E < depth")
  case True
  then show ?thesis using that(1) by blast
next
  case deep: False
  show ?thesis
  proof (cases "\<exists>a. field = LRef a")
    case False
    then show ?thesis using that(2) deep by blast
  next
    case True
    then obtain a where a: "field = LRef a" by blast
    show ?thesis
    proof (cases "heap s a")
      case (HArray kind elems)
      then show ?thesis using that(3,4,5) deep a by (cases expandList; cases "elems = []") auto
    next
      case (HObject ctor entries)
      then show ?thesis using that(6,7,8,9) deep a
        by (cases "namedClass ctor"; cases expandList; cases "entries = []") auto
    qed
  qed
qed

section \<open>Invariants of a render\<close>

lemmas render_induct =
  renderValue_forArrayExpand_forArrayInline_forObjectExpand_forObjectInline.induct

text \<open>
  No function writes to the store, and each only adds nodes after those already in
  the element it is given.
\<close>

lemma frame:
  "renderValue E field cont expandList ctx depth s = (c, x, s') \<Longrightarrow>
     heap s' = heap s \<and> (\<exists>new. c = cont @ new)"
  "forArrayExpand E elems lis expandList depth s = (c, x, s') \<Longrightarrow>
     heap s' = heap s \<and> (\<exists>new. c = lis @ new)"
  "forArrayInline E elems first spanEl expandList depth s = (c, x, s') \<Longrightarrow>
     heap s' = heap s \<and> (\<exists>new. c = spanEl @ new)"
  "forObjectExpand E entries lis expandList depth s = (c, x, s') \<Longrightarrow>
     heap s' = heap s \<and> (\<exists>new. c = lis @ new)"
  "forObjectInline E entries first spanEl expandList depth s = (c, x, s') \<Longrightarrow>
     heap s' = heap s \<and> (\<exists>new. c = spanEl @ new)"
proof (induction E field cont expandList ctx depth s
         and E elems lis expandList depth s
         and E elems first spanEl expandList depth s
         and E entries lis expandList depth s
         and E entries first spanEl expandList depth s
       arbitrary: c x s' and c x s' and c x s' and c x s' and c x s'
       rule: render_induct)
  case (1 E field cont expandList ctx depth s)
  let ?s0 = "s\<lparr>calls := []\<rparr>"
  show ?case
  proof (cases rule: renderValue_cases [where E = E and depth = depth and field = field and s = s and expandList = expandList])
    case guard
    then show ?thesis using "1.prems" by (auto simp: renderValue_guard)
  next
    case leaf
    from renderValue_leaf [OF leaf] obtain out x1 where
      "\<And>cont expandList ctx s.
         renderValue E field cont expandList ctx depth s =
           (cont @ out, x1, s\<lparr>calls := calls s @ [Call field expandList ctx depth []]\<rparr>)"
      by blast
    then show ?thesis using "1.prems" by auto
  next
    case (arrayExpand a kind elems)
    obtain lis x1 s1 where r: "forArrayExpand E elems [] expandList depth ?s0 = (lis, x1, s1)"
      by (cases "forArrayExpand E elems [] expandList depth ?s0") auto
    have "heap s1 = heap ?s0"
      using "1.IH"(1) [OF refl arrayExpand(1,2) _ arrayExpand(4) r] arrayExpand(3) by simp
    then show ?thesis using "1.prems" arrayExpand r
      by (auto simp: renderValue_array_expand [where kind = kind and elems = elems])
  next
    case (arrayEmpty a kind)
    then show ?thesis using "1.prems"
      by (auto simp: renderValue_array_empty [where kind = kind])
  next
    case (arrayInline a kind elems)
    obtain kids x1 s1 where r: "forArrayInline E elems True [] expandList depth ?s0 = (kids, x1, s1)"
      by (cases "forArrayInline E elems True [] expandList depth ?s0") auto
    have "heap s1 = heap ?s0"
      using "1.IH"(2) [OF refl arrayInline(1,2) _ arrayInline(4) _ r] arrayInline(3,5) by simp
    then show ?thesis using "1.prems" arrayInline r
      by (auto simp: renderValue_array_inline [where kind = kind and elems = elems])
  next
    case (namedClass a ctor entries)
    then show ?thesis using "1.prems"
      by (auto simp: renderValue_object_foreign [where ctor = ctor and entries = entries])
  next
    case (objectExpand a ctor entries)
    obtain lis x1 s1 where r: "forObjectExpand E entries [] expandList depth ?s0 = (lis, x1, s1)"
      by (cases "forObjectExpand E entries [] expandList depth ?s0") auto
    have "heap s1 = heap ?s0"
      using "1.IH"(3) [OF refl objectExpand(1,2) _ objectExpand(4,5) r] objectExpand(3) by simp
    then show ?thesis using "1.prems" objectExpand r
      by (auto simp: renderValue_object_expand [where ctor = ctor and entries = entries])
  next
    case (objectEmpty a ctor)
    then show ?thesis using "1.prems"
      by (auto simp: renderValue_object_empty [where ctor = ctor])
  next
    case (objectInline a ctor entries)
    obtain kids x1 s1 where r: "forObjectInline E entries True [] expandList depth ?s0 = (kids, x1, s1)"
      by (cases "forObjectInline E entries True [] expandList depth ?s0") auto
    have "heap s1 = heap ?s0"
      using "1.IH"(4) [OF refl objectInline(1,2) _ objectInline(4,5) _ r] objectInline(3,6) by simp
    then show ?thesis using "1.prems" objectInline r
      by (auto simp: renderValue_object_inline [where ctor = ctor and entries = entries])
  qed
next
  case (2 E lis expandList depth s)
  then show ?case by simp
next
  case (3 E child rest lis expandList depth s)
  obtain li x1 s1 where r: "renderValue E child [] expandList CtxList (depth + 1) s = (li, x1, s1)"
    by (cases "renderValue E child [] expandList CtxList (depth + 1) s") auto
  note h1 = "3.IH"(1) [OF r]
  show ?case
  proof (cases x1)
    case None
    with r "3.prems" have
      "forArrayExpand E rest (lis @ [Element ''li'' [''dataview-result-list-li''] li])
         expandList depth s1 = (c, x, s')" by simp
    from "3.IH"(2) [OF r [symmetric] refl None this] h1 show ?thesis by auto
  next
    case (Some e)
    with r "3.prems" h1 show ?thesis by auto
  qed
next
  case (4 E first spanEl expandList depth s)
  then show ?case by simp
next
  case (5 E val rest first spanEl expandList depth s)
  let ?sp = "if first then spanEl else spanEl @ [Text '', '']"
  obtain sp1 x1 s1 where r: "renderValue E val ?sp expandList CtxList (depth + 1) s = (sp1, x1, s1)"
    by (cases "renderValue E val ?sp expandList CtxList (depth + 1) s") auto
  note h1 = "5.IH"(1) [OF r]
  show ?case
  proof (cases x1)
    case None
    with r "5.prems" have "forArrayInline E rest False sp1 expandList depth s1 = (c, x, s')"
      by simp
    from "5.IH"(2) [OF r [symmetric] refl None this] h1 show ?thesis by (auto split: if_splits)
  next
    case (Some e)
    with r "5.prems" h1 show ?thesis by (auto split: if_splits)
  qed
next
  case (6 E lis expandList depth s)
  then show ?case by simp
next
  case (7 E key val rest lis expandList depth s)
  obtain li x1 s1 where
    r: "renderValue E val [Text (key @ '': '')] expandList CtxList (depth + 1) s = (li, x1, s1)"
    by (cases "renderValue E val [Text (key @ '': '')] expandList CtxList (depth + 1) s") auto
  note h1 = "7.IH"(1) [OF r]
  show ?case
  proof (cases x1)
    case None
    with r "7.prems" have
      "forObjectExpand E rest
         (lis @ [Element ''li'' [''dataview'', ''dataview-li'', ''dataview-result-object-li''] li])
         expandList depth s1 = (c, x, s')" by simp
    from "7.IH"(2) [OF r [symmetric] refl None this] h1 show ?thesis by auto
  next
    case (Some e)
    with r "7.prems" h1 show ?thesis by auto
  qed
next
  case (8 E first spanEl expandList depth s)
  then show ?case by simp
next
  case (9 E key val rest first spanEl expandList depth s)
  let ?sp = "(if first then spanEl else spanEl @ [Text '', '']) @ [Text (key @ '': '')]"
  obtain sp1 x1 s1 where r: "renderValue E val ?sp expandList CtxList (depth + 1) s = (sp1, x1, s1)"
    by (cases "renderValue E val ?sp expandList CtxList (depth + 1) s") auto
  note h1 = "9.IH"(1) [OF r]
  show ?case
  proof (cases x1)
    case None
    with r "9.prems" have "forObjectInline E rest False sp1 expandList depth s1 = (c, x, s')"
      by simp
    from "9.IH"(2) [OF r [symmetric] refl None this] h1 show ?thesis by (auto split: if_splits)
  next
    case (Some e)
    with r "9.prems" h1 show ?thesis by (auto split: if_splits)
  qed
qed

text \<open>
  What each function adds to the record of invocations: \<^verbatim>\<open>renderValue\<close> adds itself,
  with the calls its loop made below it; a loop adds the calls it made.
\<close>

lemma calledFromI:
  assumes "\<forall>u \<in> set subs. calledFrom E (d + 1) u"
      and "maxRecursiveRenderDepth E < d + 1 \<longrightarrow> subs = []"
  shows "calledFrom E d (Call f e CtxList (d + 1) subs)"
  using assms by (simp add: calledFrom_def)

lemma recorded_calls:
  "renderValue E field cont expandList ctx depth s = (c, x, s') \<Longrightarrow>
     \<exists>subs. calls s' = calls s @ [Call field expandList ctx depth subs] \<and>
            (maxRecursiveRenderDepth E < depth \<longrightarrow> subs = []) \<and>
            (\<forall>u \<in> set subs. calledFrom E depth u)"
  "forArrayExpand E elems lis expandList depth s = (c, x, s') \<Longrightarrow>
     \<exists>new. calls s' = calls s @ new \<and> (\<forall>u \<in> set new. calledFrom E depth u)"
  "forArrayInline E elems first spanEl expandList depth s = (c, x, s') \<Longrightarrow>
     \<exists>new. calls s' = calls s @ new \<and> (\<forall>u \<in> set new. calledFrom E depth u)"
  "forObjectExpand E entries lis expandList depth s = (c, x, s') \<Longrightarrow>
     \<exists>new. calls s' = calls s @ new \<and> (\<forall>u \<in> set new. calledFrom E depth u)"
  "forObjectInline E entries first spanEl expandList depth s = (c, x, s') \<Longrightarrow>
     \<exists>new. calls s' = calls s @ new \<and> (\<forall>u \<in> set new. calledFrom E depth u)"
proof (induction E field cont expandList ctx depth s
         and E elems lis expandList depth s
         and E elems first spanEl expandList depth s
         and E entries lis expandList depth s
         and E entries first spanEl expandList depth s
       arbitrary: c x s' and c x s' and c x s' and c x s' and c x s'
       rule: render_induct)
  case (1 E field cont expandList ctx depth s)
  let ?s0 = "s\<lparr>calls := []\<rparr>"
  show ?case
  proof (cases rule: renderValue_cases [where E = E and depth = depth and field = field and s = s and expandList = expandList])
    case guard
    then show ?thesis using "1.prems" by (auto simp: renderValue_guard)
  next
    case leaf
    from renderValue_leaf [OF leaf] obtain out x1 where
      "\<And>cont expandList ctx s.
         renderValue E field cont expandList ctx depth s =
           (cont @ out, x1, s\<lparr>calls := calls s @ [Call field expandList ctx depth []]\<rparr>)"
      by blast
    then show ?thesis using "1.prems" by auto
  next
    case (arrayExpand a kind elems)
    obtain lis x1 s1 where r: "forArrayExpand E elems [] expandList depth ?s0 = (lis, x1, s1)"
      by (cases "forArrayExpand E elems [] expandList depth ?s0") auto
    have "\<forall>u \<in> set (calls s1). calledFrom E depth u"
      using "1.IH"(1) [OF refl arrayExpand(1,2) _ arrayExpand(4) r] arrayExpand(3) by simp
    then show ?thesis using "1.prems" arrayExpand r
      by (auto simp: renderValue_array_expand [where kind = kind and elems = elems])
  next
    case (arrayEmpty a kind)
    then show ?thesis using "1.prems"
      by (auto simp: renderValue_array_empty [where kind = kind])
  next
    case (arrayInline a kind elems)
    obtain kids x1 s1 where r: "forArrayInline E elems True [] expandList depth ?s0 = (kids, x1, s1)"
      by (cases "forArrayInline E elems True [] expandList depth ?s0") auto
    have "\<forall>u \<in> set (calls s1). calledFrom E depth u"
      using "1.IH"(2) [OF refl arrayInline(1,2) _ arrayInline(4) _ r] arrayInline(3,5) by simp
    then show ?thesis using "1.prems" arrayInline r
      by (auto simp: renderValue_array_inline [where kind = kind and elems = elems])
  next
    case (namedClass a ctor entries)
    then show ?thesis using "1.prems"
      by (auto simp: renderValue_object_foreign [where ctor = ctor and entries = entries])
  next
    case (objectExpand a ctor entries)
    obtain lis x1 s1 where r: "forObjectExpand E entries [] expandList depth ?s0 = (lis, x1, s1)"
      by (cases "forObjectExpand E entries [] expandList depth ?s0") auto
    have "\<forall>u \<in> set (calls s1). calledFrom E depth u"
      using "1.IH"(3) [OF refl objectExpand(1,2) _ objectExpand(4,5) r] objectExpand(3) by simp
    then show ?thesis using "1.prems" objectExpand r
      by (auto simp: renderValue_object_expand [where ctor = ctor and entries = entries])
  next
    case (objectEmpty a ctor)
    then show ?thesis using "1.prems"
      by (auto simp: renderValue_object_empty [where ctor = ctor])
  next
    case (objectInline a ctor entries)
    obtain kids x1 s1 where r: "forObjectInline E entries True [] expandList depth ?s0 = (kids, x1, s1)"
      by (cases "forObjectInline E entries True [] expandList depth ?s0") auto
    have "\<forall>u \<in> set (calls s1). calledFrom E depth u"
      using "1.IH"(4) [OF refl objectInline(1,2) _ objectInline(4,5) _ r] objectInline(3,6) by simp
    then show ?thesis using "1.prems" objectInline r
      by (auto simp: renderValue_object_inline [where ctor = ctor and entries = entries])
  qed
next
  case (2 E lis expandList depth s)
  then show ?case by simp
next
  case (3 E child rest lis expandList depth s)
  obtain li x1 s1 where r: "renderValue E child [] expandList CtxList (depth + 1) s = (li, x1, s1)"
    by (cases "renderValue E child [] expandList CtxList (depth + 1) s") auto
  from "3.IH"(1) [OF r] obtain subs where
    h1: "calls s1 = calls s @ [Call child expandList CtxList (depth + 1) subs]"
    and h2: "calledFrom E depth (Call child expandList CtxList (depth + 1) subs)"
    using calledFromI by blast
  show ?case
  proof (cases x1)
    case None
    with r "3.prems" have
      "forArrayExpand E rest (lis @ [Element ''li'' [''dataview-result-list-li''] li])
         expandList depth s1 = (c, x, s')" by simp
    from "3.IH"(2) [OF r [symmetric] refl None this] h1 h2 show ?thesis by auto
  next
    case (Some e)
    with r "3.prems" h1 h2 show ?thesis by auto
  qed
next
  case (4 E first spanEl expandList depth s)
  then show ?case by simp
next
  case (5 E val rest first spanEl expandList depth s)
  let ?sp = "if first then spanEl else spanEl @ [Text '', '']"
  obtain sp1 x1 s1 where r: "renderValue E val ?sp expandList CtxList (depth + 1) s = (sp1, x1, s1)"
    by (cases "renderValue E val ?sp expandList CtxList (depth + 1) s") auto
  from "5.IH"(1) [OF r] obtain subs where
    h1: "calls s1 = calls s @ [Call val expandList CtxList (depth + 1) subs]"
    and h2: "calledFrom E depth (Call val expandList CtxList (depth + 1) subs)"
    using calledFromI by blast
  show ?case
  proof (cases x1)
    case None
    with r "5.prems" have "forArrayInline E rest False sp1 expandList depth s1 = (c, x, s')"
      by simp
    from "5.IH"(2) [OF r [symmetric] refl None this] h1 h2 show ?thesis by auto
  next
    case (Some e)
    with r "5.prems" h1 h2 show ?thesis by auto
  qed
next
  case (6 E lis expandList depth s)
  then show ?case by simp
next
  case (7 E key val rest lis expandList depth s)
  obtain li x1 s1 where
    r: "renderValue E val [Text (key @ '': '')] expandList CtxList (depth + 1) s = (li, x1, s1)"
    by (cases "renderValue E val [Text (key @ '': '')] expandList CtxList (depth + 1) s") auto
  from "7.IH"(1) [OF r] obtain subs where
    h1: "calls s1 = calls s @ [Call val expandList CtxList (depth + 1) subs]"
    and h2: "calledFrom E depth (Call val expandList CtxList (depth + 1) subs)"
    using calledFromI by blast
  show ?case
  proof (cases x1)
    case None
    with r "7.prems" have
      "forObjectExpand E rest
         (lis @ [Element ''li'' [''dataview'', ''dataview-li'', ''dataview-result-object-li''] li])
         expandList depth s1 = (c, x, s')" by simp
    from "7.IH"(2) [OF r [symmetric] refl None this] h1 h2 show ?thesis by auto
  next
    case (Some e)
    with r "7.prems" h1 h2 show ?thesis by auto
  qed
next
  case (8 E first spanEl expandList depth s)
  then show ?case by simp
next
  case (9 E key val rest first spanEl expandList depth s)
  let ?sp = "(if first then spanEl else spanEl @ [Text '', '']) @ [Text (key @ '': '')]"
  obtain sp1 x1 s1 where r: "renderValue E val ?sp expandList CtxList (depth + 1) s = (sp1, x1, s1)"
    by (cases "renderValue E val ?sp expandList CtxList (depth + 1) s") auto
  from "9.IH"(1) [OF r] obtain subs where
    h1: "calls s1 = calls s @ [Call val expandList CtxList (depth + 1) subs]"
    and h2: "calledFrom E depth (Call val expandList CtxList (depth + 1) subs)"
    using calledFromI by blast
  show ?case
  proof (cases x1)
    case None
    with r "9.prems" have "forObjectInline E rest False sp1 expandList depth s1 = (c, x, s')"
      by simp
    from "9.IH"(2) [OF r [symmetric] refl None this] h1 h2 show ?thesis by auto
  next
    case (Some e)
    with r "9.prems" h1 h2 show ?thesis by auto
  qed
qed

section \<open>Facts about recorded invocations\<close>

lemma invocations_below:
  assumes "listCalls t" and "guardedCalls k t" and "u \<in> set (invocations t)"
  shows "depthOf u \<le> max (depthOf t) (k + 1) \<and> (k < depthOf u \<longrightarrow> subcalls u = [])"
  using assms
proof (induction t arbitrary: u)
  case (Call f e c d subs)
  show ?case
  proof (cases "u = Call f e c d subs")
    case True
    then show ?thesis using Call.prems(2) by simp
  next
    case False
    then obtain v where v: "v \<in> set subs" "u \<in> set (invocations v)"
      using Call.prems(3) by auto
    then have "subs \<noteq> []" by auto
    then have d: "d \<le> k" using Call.prems(2) by auto
    have "listCalls v" "guardedCalls k v" "depthOf v = d + 1"
      using v(1) Call.prems(1,2) by auto
    with Call.IH [OF v(1) _ _ v(2)] d show ?thesis by auto
  qed
qed

lemma list_context_below:
  assumes "listCalls t" and "v \<in> set (subcalls t)" and "u \<in> set (invocations v)"
  shows "contextOf u = CtxList"
  using assms
proof (induction t arbitrary: u v)
  case (Call f e c d subs)
  then have v: "v \<in> set subs" "contextOf v = CtxList" "listCalls v" by auto
  show ?case
  proof (cases v)
    case (Call f' e' c' d' subs')
    show ?thesis
    proof (cases "u = v")
      case True
      then show ?thesis using v(2) by simp
    next
      case False
      then obtain w where "w \<in> set subs'" "u \<in> set (invocations w)"
        using Call.prems(3) \<open>v = Call f' e' c' d' subs'\<close> by auto
      then show ?thesis
        using Call.IH [OF v(1) v(3), of w u] \<open>v = Call f' e' c' d' subs'\<close> by simp
    qed
  qed
qed

section \<open>What is appended does not depend on where\<close>


section \<open>The output of the array loops\<close>




section \<open>Reaching the depth guard\<close>

lemma nestedTo_SucD:
  assumes "nestedTo h v (Suc n)"
  obtains a kind elems x where "v = LRef a" "h a = HArray kind elems" "x \<in> set elems"
      "nestedTo h x n"
  | a ctor entries key x where "v = LRef a" "h a = HObject ctor entries" "\<not> namedClass ctor"
      "(key, x) \<in> set entries" "nestedTo h x n"
  using assms by (auto split: literal.splits container.splits)

text \<open>
  A render that returns reaches every value below the one it is given, until the
  depth guard stops it.
\<close>

lemma guard_reached:
  "renderValue E field cont expandList ctx depth s = (c, None, s') \<Longrightarrow>
   nestedTo (heap s) field n \<Longrightarrow> depth \<le> maxRecursiveRenderDepth E + 1 \<Longrightarrow>
   maxRecursiveRenderDepth E + 1 \<le> depth + n \<Longrightarrow>
     \<exists>t. calls s' = calls s @ [t] \<and>
         (\<exists>u \<in> set (invocations t). depthOf u = maxRecursiveRenderDepth E + 1)"
  "forArrayExpand E elems lis expandList depth s = (c, None, s') \<Longrightarrow>
   x \<in> set elems \<Longrightarrow> nestedTo (heap s) x n \<Longrightarrow> depth \<le> maxRecursiveRenderDepth E \<Longrightarrow>
   maxRecursiveRenderDepth E \<le> depth + n \<Longrightarrow>
     \<exists>new. calls s' = calls s @ new \<and>
         (\<exists>t \<in> set new. \<exists>u \<in> set (invocations t). depthOf u = maxRecursiveRenderDepth E + 1)"
  "forArrayInline E elems first spanEl expandList depth s = (c, None, s') \<Longrightarrow>
   x \<in> set elems \<Longrightarrow> nestedTo (heap s) x n \<Longrightarrow> depth \<le> maxRecursiveRenderDepth E \<Longrightarrow>
   maxRecursiveRenderDepth E \<le> depth + n \<Longrightarrow>
     \<exists>new. calls s' = calls s @ new \<and>
         (\<exists>t \<in> set new. \<exists>u \<in> set (invocations t). depthOf u = maxRecursiveRenderDepth E + 1)"
  "forObjectExpand E entries lis expandList depth s = (c, None, s') \<Longrightarrow>
   (k, x) \<in> set entries \<Longrightarrow> nestedTo (heap s) x n \<Longrightarrow> depth \<le> maxRecursiveRenderDepth E \<Longrightarrow>
   maxRecursiveRenderDepth E \<le> depth + n \<Longrightarrow>
     \<exists>new. calls s' = calls s @ new \<and>
         (\<exists>t \<in> set new. \<exists>u \<in> set (invocations t). depthOf u = maxRecursiveRenderDepth E + 1)"
  "forObjectInline E entries first spanEl expandList depth s = (c, None, s') \<Longrightarrow>
   (k, x) \<in> set entries \<Longrightarrow> nestedTo (heap s) x n \<Longrightarrow> depth \<le> maxRecursiveRenderDepth E \<Longrightarrow>
   maxRecursiveRenderDepth E \<le> depth + n \<Longrightarrow>
     \<exists>new. calls s' = calls s @ new \<and>
         (\<exists>t \<in> set new. \<exists>u \<in> set (invocations t). depthOf u = maxRecursiveRenderDepth E + 1)"
proof (induction E field cont expandList ctx depth s
         and E elems lis expandList depth s
         and E elems first spanEl expandList depth s
         and E entries lis expandList depth s
         and E entries first spanEl expandList depth s
       arbitrary: c s' n and c s' n x and c s' n x and c s' n x k and c s' n x k
       rule: render_induct)
  case (1 E field cont expandList ctx depth s)
  let ?s0 = "s\<lparr>calls := []\<rparr>"
  let ?k = "maxRecursiveRenderDepth E"
  note r = "1.prems"(1)
  show ?case
  proof (cases "?k < depth")
    case True
    then have "depth = ?k + 1" using "1.prems"(3) by simp
    then show ?thesis using r True by (auto simp: renderValue_guard)
  next
    case False
    then obtain n' where n: "n = Suc n'" using "1.prems"(4) by (cases n) auto
    have le: "depth \<le> ?k" "?k \<le> depth + n'" using False "1.prems"(4) n by simp_all
    from "1.prems"(2) [unfolded n] show ?thesis
    proof (cases rule: nestedTo_SucD)
      case (1 a kind elems x)
      show ?thesis
      proof (cases expandList)
        case True
        obtain lis x1 s1 where l: "forArrayExpand E elems [] expandList depth ?s0 = (lis, x1, s1)"
          by (cases "forArrayExpand E elems [] expandList depth ?s0") auto
        have eq: "(c, None, s') =
            (cont @ [Element ''ul''
                     [''dataview'', ''dataview-ul'',
                      if ctx = CtxList then ''dataview-result-list-ul''
                      else ''dataview-result-list-root-ul''] lis],
             x1, s1\<lparr>calls := calls s @ [Call (LRef a) True ctx depth (calls s1)]\<rparr>)"
          using r 1(1,2) True l False
          by (simp add: renderValue_array_expand [where kind = kind and elems = elems])
        then have l': "forArrayExpand E elems [] expandList depth ?s0 = (lis, None, s1)"
          using l by simp
        from "1.IH"(1) [OF refl False 1(1) _ True l' 1(3) _ le] 1(2,4)
        obtain t u where "t \<in> set (calls s1)" "u \<in> set (invocations t)" "depthOf u = ?k + 1"
          by auto
        then show ?thesis using eq 1(1) True by auto
      next
        case inl: False
        have ne: "elems \<noteq> []" using 1(3) by auto
        obtain kids x1 s1 where
          l: "forArrayInline E elems True [] expandList depth ?s0 = (kids, x1, s1)"
          by (cases "forArrayInline E elems True [] expandList depth ?s0") auto
        have eq: "(c, None, s') =
            (cont @ [Element ''span'' [''dataview'', ''dataview-result-list-span''] kids],
             x1, s1\<lparr>calls := calls s @ [Call (LRef a) False ctx depth (calls s1)]\<rparr>)"
          using r 1(1,2) inl l False ne
          by (simp add: renderValue_array_inline [where kind = kind and elems = elems])
        then have l': "forArrayInline E elems True [] expandList depth ?s0 = (kids, None, s1)"
          using l by simp
        from "1.IH"(2) [OF refl False 1(1) _ inl _ l' 1(3) _ le] 1(2,4) ne
        obtain t u where "t \<in> set (calls s1)" "u \<in> set (invocations t)" "depthOf u = ?k + 1"
          by auto
        then show ?thesis using eq 1(1) inl by auto
      qed
    next
      case (2 a ctor entries key x)
      show ?thesis
      proof (cases expandList)
        case True
        obtain lis x1 s1 where l: "forObjectExpand E entries [] expandList depth ?s0 = (lis, x1, s1)"
          by (cases "forObjectExpand E entries [] expandList depth ?s0") auto
        have eq: "(c, None, s') =
            (cont @ [Element ''ul'' [''dataview'', ''dataview-ul'', ''dataview-result-object-ul''] lis],
             x1, s1\<lparr>calls := calls s @ [Call (LRef a) True ctx depth (calls s1)]\<rparr>)"
          using r 2(1,2,3) True l False
          by (simp add: renderValue_object_expand [where ctor = ctor and entries = entries])
        then have l': "forObjectExpand E entries [] expandList depth ?s0 = (lis, None, s1)"
          using l by simp
        from "1.IH"(3) [OF refl False 2(1) _ 2(3) True l' 2(4) _ le] 2(2,5)
        obtain t u where "t \<in> set (calls s1)" "u \<in> set (invocations t)" "depthOf u = ?k + 1"
          by auto
        then show ?thesis using eq 2(1) True by auto
      next
        case inl: False
        have ne: "entries \<noteq> []" using 2(4) by auto
        obtain kids x1 s1 where
          l: "forObjectInline E entries True [] expandList depth ?s0 = (kids, x1, s1)"
          by (cases "forObjectInline E entries True [] expandList depth ?s0") auto
        have eq: "(c, None, s') =
            (cont @ [Element ''span'' [''dataview'', ''dataview-result-object-span''] kids],
             x1, s1\<lparr>calls := calls s @ [Call (LRef a) False ctx depth (calls s1)]\<rparr>)"
          using r 2(1,2,3) inl l False ne
          by (simp add: renderValue_object_inline [where ctor = ctor and entries = entries])
        then have l': "forObjectInline E entries True [] expandList depth ?s0 = (kids, None, s1)"
          using l by simp
        from "1.IH"(4) [OF refl False 2(1) _ 2(3) inl _ l' 2(4) _ le] 2(2,5) ne
        obtain t u where "t \<in> set (calls s1)" "u \<in> set (invocations t)" "depthOf u = ?k + 1"
          by auto
        then show ?thesis using eq 2(1) inl by auto
      qed
    qed
  qed
next
  case (2 E lis expandList depth s)
  then show ?case by simp
next
  case (3 E child rest lis expandList depth s)
  let ?k = "maxRecursiveRenderDepth E"
  obtain li x1 s1 where r: "renderValue E child [] expandList CtxList (depth + 1) s = (li, x1, s1)"
    by (cases "renderValue E child [] expandList CtxList (depth + 1) s") auto
  have x1: "x1 = None" using r "3.prems"(1) by (cases x1) auto
  note r = r [unfolded x1]
  have l: "forArrayExpand E rest (lis @ [Element ''li'' [''dataview-result-list-li''] li])
         expandList depth s1 = (c, None, s')" using r "3.prems"(1) by simp
  from recorded_calls(1) [OF r] obtain t1 where t1: "calls s1 = calls s @ [t1]" by blast
  from recorded_calls(2) [OF l] obtain new where new: "calls s' = calls s1 @ new" by blast
  have h: "heap s1 = heap s" using frame(1) [OF r] by simp
  show ?case
  proof (cases "x = child")
    case True
    from "3.IH"(1) [OF r, of n] "3.prems"(3,4,5) True
    have "\<exists>u \<in> set (invocations t1). depthOf u = ?k + 1" using t1 by auto
    then show ?thesis using t1 new by auto
  next
    case False
    then have "x \<in> set rest" using "3.prems"(2) by simp
    from "3.IH"(2) [OF r [symmetric] refl refl l this _ "3.prems"(4,5)] "3.prems"(3) h
    have "\<exists>t \<in> set new. \<exists>u \<in> set (invocations t). depthOf u = ?k + 1" using new by auto
    then show ?thesis using t1 new by auto
  qed
next
  case (4 E first spanEl expandList depth s)
  then show ?case by simp
next
  case (5 E val rest first spanEl expandList depth s)
  let ?k = "maxRecursiveRenderDepth E"
  let ?sp = "if first then spanEl else spanEl @ [Text '', '']"
  obtain sp1 x1 s1 where r: "renderValue E val ?sp expandList CtxList (depth + 1) s = (sp1, x1, s1)"
    by (cases "renderValue E val ?sp expandList CtxList (depth + 1) s") auto
  have x1: "x1 = None" using r "5.prems"(1) by (cases x1) auto
  note r = r [unfolded x1]
  have l: "forArrayInline E rest False sp1 expandList depth s1 = (c, None, s')"
    using r "5.prems"(1) by simp
  from recorded_calls(1) [OF r] obtain t1 where t1: "calls s1 = calls s @ [t1]" by blast
  from recorded_calls(3) [OF l] obtain new where new: "calls s' = calls s1 @ new" by blast
  have h: "heap s1 = heap s" using frame(1) [OF r] by simp
  show ?case
  proof (cases "x = val")
    case True
    from "5.IH"(1) [OF r, of n] "5.prems"(3,4,5) True
    have "\<exists>u \<in> set (invocations t1). depthOf u = ?k + 1" using t1 by auto
    then show ?thesis using t1 new by auto
  next
    case False
    then have "x \<in> set rest" using "5.prems"(2) by simp
    from "5.IH"(2) [OF r [symmetric] refl refl l this _ "5.prems"(4,5)] "5.prems"(3) h
    have "\<exists>t \<in> set new. \<exists>u \<in> set (invocations t). depthOf u = ?k + 1" using new by auto
    then show ?thesis using t1 new by auto
  qed
next
  case (6 E lis expandList depth s)
  then show ?case by simp
next
  case (7 E key val rest lis expandList depth s)
  let ?k = "maxRecursiveRenderDepth E"
  obtain li x1 s1 where
    r: "renderValue E val [Text (key @ '': '')] expandList CtxList (depth + 1) s = (li, x1, s1)"
    by (cases "renderValue E val [Text (key @ '': '')] expandList CtxList (depth + 1) s") auto
  have x1: "x1 = None" using r "7.prems"(1) by (cases x1) auto
  note r = r [unfolded x1]
  have l: "forObjectExpand E rest
         (lis @ [Element ''li'' [''dataview'', ''dataview-li'', ''dataview-result-object-li''] li])
         expandList depth s1 = (c, None, s')" using r "7.prems"(1) by simp
  from recorded_calls(1) [OF r] obtain t1 where t1: "calls s1 = calls s @ [t1]" by blast
  from recorded_calls(4) [OF l] obtain new where new: "calls s' = calls s1 @ new" by blast
  have h: "heap s1 = heap s" using frame(1) [OF r] by simp
  show ?case
  proof (cases "(k, x) = (key, val)")
    case True
    from "7.IH"(1) [OF r, of n] "7.prems"(3,4,5) True
    have "\<exists>u \<in> set (invocations t1). depthOf u = ?k + 1" using t1 by auto
    then show ?thesis using t1 new by auto
  next
    case False
    then have "(k, x) \<in> set rest" using "7.prems"(2) by auto
    from "7.IH"(2) [OF r [symmetric] refl refl l this _ "7.prems"(4,5)] "7.prems"(3) h
    have "\<exists>t \<in> set new. \<exists>u \<in> set (invocations t). depthOf u = ?k + 1" using new by auto
    then show ?thesis using t1 new by auto
  qed
next
  case (8 E first spanEl expandList depth s)
  then show ?case by simp
next
  case (9 E key val rest first spanEl expandList depth s)
  let ?k = "maxRecursiveRenderDepth E"
  let ?sp = "(if first then spanEl else spanEl @ [Text '', '']) @ [Text (key @ '': '')]"
  obtain sp1 x1 s1 where r: "renderValue E val ?sp expandList CtxList (depth + 1) s = (sp1, x1, s1)"
    by (cases "renderValue E val ?sp expandList CtxList (depth + 1) s") auto
  have x1: "x1 = None" using r "9.prems"(1) by (cases x1) auto
  note r = r [unfolded x1]
  have l: "forObjectInline E rest False sp1 expandList depth s1 = (c, None, s')"
    using r "9.prems"(1) by simp
  from recorded_calls(1) [OF r] obtain t1 where t1: "calls s1 = calls s @ [t1]" by blast
  from recorded_calls(5) [OF l] obtain new where new: "calls s' = calls s1 @ new" by blast
  have h: "heap s1 = heap s" using frame(1) [OF r] by simp
  show ?case
  proof (cases "(k, x) = (key, val)")
    case True
    from "9.IH"(1) [OF r, of n] "9.prems"(3,4,5) True
    have "\<exists>u \<in> set (invocations t1). depthOf u = ?k + 1" using t1 by auto
    then show ?thesis using t1 new by auto
  next
    case False
    then have "(k, x) \<in> set rest" using "9.prems"(2) by auto
    from "9.IH"(2) [OF r [symmetric] refl refl l this _ "9.prems"(4,5)] "9.prems"(3) h
    have "\<exists>t \<in> set new. \<exists>u \<in> set (invocations t). depthOf u = ?k + 1" using new by auto
    then show ?thesis using t1 new by auto
  qed
qed

section \<open>Renders that do not raise\<close>

lemma renderCompactMarkdown_span:
  "\<exists>kids. fst (renderCompactMarkdown E md cont) = cont @ [Element ''span'' [] kids]"
  by (simp add: renderCompactMarkdown_def Let_def split: option.split sum.split)

lemma renderValue_leaf_cases:
  assumes "\<not> maxRecursiveRenderDepth E < depth" and "\<And>a. field \<noteq> LRef a"
  obtains n where
    "\<And>cont expandList ctx s.
       renderValue E field cont expandList ctx depth s =
         (cont @ [n], None, s\<lparr>calls := calls s @ [Call field expandList ctx depth []]\<rparr>)"
  | md where
    "\<And>cont expandList ctx s.
       renderValue E field cont expandList ctx depth s =
         (fst (renderCompactMarkdown E md cont), snd (renderCompactMarkdown E md cont),
          s\<lparr>calls := calls s @ [Call field expandList ctx depth []]\<rparr>)"
proof (cases field)
  case (LRef a)
  then show ?thesis using assms(2) by simp
qed (use assms(1) that in \<open>simp_all add: renderValue.simps Let_def split_beta\<close>)

text \<open>
  If the markdown renderer never leaves a paragraph below the single child element of
  the wrapper, no render raises, and \<^verbatim>\<open>renderValue\<close> appends at least one node.
\<close>

lemma render_total:
  "\<forall>md cont. snd (renderCompactMarkdown E md cont) = None \<Longrightarrow>
     fst (snd (renderValue E field cont expandList ctx depth s)) = None \<and>
     (\<exists>n new. fst (renderValue E field cont expandList ctx depth s) = cont @ n # new)"
  "\<forall>md cont. snd (renderCompactMarkdown E md cont) = None \<Longrightarrow>
     fst (snd (forArrayExpand E elems lis expandList depth s)) = None"
  "\<forall>md cont. snd (renderCompactMarkdown E md cont) = None \<Longrightarrow>
     fst (snd (forArrayInline E elems first spanEl expandList depth s)) = None"
  "\<forall>md cont. snd (renderCompactMarkdown E md cont) = None \<Longrightarrow>
     fst (snd (forObjectExpand E entries lis expandList depth s)) = None"
  "\<forall>md cont. snd (renderCompactMarkdown E md cont) = None \<Longrightarrow>
     fst (snd (forObjectInline E entries first spanEl expandList depth s)) = None"
proof (induction E field cont expandList ctx depth s
         and E elems lis expandList depth s
         and E elems first spanEl expandList depth s
         and E entries lis expandList depth s
         and E entries first spanEl expandList depth s
       rule: render_induct)
  case (1 E field cont expandList ctx depth s)
  let ?s0 = "s\<lparr>calls := []\<rparr>"
  note ok = "1.prems"
  show ?case
  proof (cases rule: renderValue_cases [where E = E and depth = depth and field = field and s = s and expandList = expandList])
    case guard
    then show ?thesis by (simp add: renderValue_guard)
  next
    case leaf
    from leaf show ?thesis
    proof (cases rule: renderValue_leaf_cases [where E = E and depth = depth and field = field])
      case (1 n)
      then show ?thesis by simp
    next
      case (2 md)
      then show ?thesis using ok renderCompactMarkdown_span [of E md cont] by auto
    qed
  next
    case (arrayExpand a kind elems)
    from "1.IH"(1) [OF refl arrayExpand(1,2) _ arrayExpand(4) ok] arrayExpand(3)
    have "fst (snd (forArrayExpand E elems [] expandList depth ?s0)) = None" by simp
    then show ?thesis using arrayExpand
      by (simp add: renderValue_array_expand [where kind = kind and elems = elems] split_beta)
  next
    case (arrayEmpty a kind)
    then show ?thesis by (simp add: renderValue_array_empty [where kind = kind])
  next
    case (arrayInline a kind elems)
    from "1.IH"(2) [OF refl arrayInline(1,2) _ arrayInline(4) _ ok] arrayInline(3,5)
    have "fst (snd (forArrayInline E elems True [] expandList depth ?s0)) = None" by simp
    then show ?thesis using arrayInline
      by (simp add: renderValue_array_inline [where kind = kind and elems = elems] split_beta)
  next
    case (namedClass a ctor entries)
    then show ?thesis
      by (simp add: renderValue_object_foreign [where ctor = ctor and entries = entries])
  next
    case (objectExpand a ctor entries)
    from "1.IH"(3) [OF refl objectExpand(1,2) _ objectExpand(4,5) ok] objectExpand(3)
    have "fst (snd (forObjectExpand E entries [] expandList depth ?s0)) = None" by simp
    then show ?thesis using objectExpand
      by (simp add: renderValue_object_expand [where ctor = ctor and entries = entries] split_beta)
  next
    case (objectEmpty a ctor)
    then show ?thesis by (simp add: renderValue_object_empty [where ctor = ctor])
  next
    case (objectInline a ctor entries)
    from "1.IH"(4) [OF refl objectInline(1,2) _ objectInline(4,5) _ ok] objectInline(3,6)
    have "fst (snd (forObjectInline E entries True [] expandList depth ?s0)) = None" by simp
    then show ?thesis using objectInline
      by (simp add: renderValue_object_inline [where ctor = ctor and entries = entries] split_beta)
  qed
next
  case (2 E lis expandList depth s)
  then show ?case by simp
next
  case (3 E child rest lis expandList depth s)
  obtain li x1 s1 where r: "renderValue E child [] expandList CtxList (depth + 1) s = (li, x1, s1)"
    by (cases "renderValue E child [] expandList CtxList (depth + 1) s") auto
  have x1: "x1 = None" using "3.IH"(1) [OF "3.prems"] r by simp
  from "3.IH"(2) [OF r [symmetric] refl x1 "3.prems"] r x1 show ?case by simp
next
  case (4 E first spanEl expandList depth s)
  then show ?case by simp
next
  case (5 E val rest first spanEl expandList depth s)
  let ?sp = "if first then spanEl else spanEl @ [Text '', '']"
  obtain sp1 x1 s1 where r: "renderValue E val ?sp expandList CtxList (depth + 1) s = (sp1, x1, s1)"
    by (cases "renderValue E val ?sp expandList CtxList (depth + 1) s") auto
  have x1: "x1 = None" using "5.IH"(1) [OF "5.prems"] r by simp
  from "5.IH"(2) [OF r [symmetric] refl x1 "5.prems"] r x1 show ?case by simp
next
  case (6 E lis expandList depth s)
  then show ?case by simp
next
  case (7 E key val rest lis expandList depth s)
  obtain li x1 s1 where
    r: "renderValue E val [Text (key @ '': '')] expandList CtxList (depth + 1) s = (li, x1, s1)"
    by (cases "renderValue E val [Text (key @ '': '')] expandList CtxList (depth + 1) s") auto
  have x1: "x1 = None" using "7.IH"(1) [OF "7.prems"] r by simp
  from "7.IH"(2) [OF r [symmetric] refl x1 "7.prems"] r x1 show ?case by simp
next
  case (8 E first spanEl expandList depth s)
  then show ?case by simp
next
  case (9 E key val rest first spanEl expandList depth s)
  let ?sp = "(if first then spanEl else spanEl @ [Text '', '']) @ [Text (key @ '': '')]"
  obtain sp1 x1 s1 where r: "renderValue E val ?sp expandList CtxList (depth + 1) s = (sp1, x1, s1)"
    by (cases "renderValue E val ?sp expandList CtxList (depth + 1) s") auto
  have x1: "x1 = None" using "9.IH"(1) [OF "9.prems"] r by simp
  from "9.IH"(2) [OF r [symmetric] refl x1 "9.prems"] r x1 show ?case by simp
qed

lemma renderValue_unrecognized:
  assumes "depth \<le> maxRecursiveRenderDepth E"
  shows "renderValue E (LOther json) cont expandList ctx depth s =
           (cont @ [Text (''Unrecognized: '' @ json)], None,
            s\<lparr>calls := calls s @ [Call (LOther json) expandList ctx depth []]\<rparr>)"
  using assms by (simp add: renderValue.simps)

section \<open>C1: empty arrays\<close>

text \<open>
  C1 (as the code has it): within the depth bound, an array of length zero rendered
  inline appends exactly the text \<^verbatim>\<open><empty list>\<close> and creates no span; rendered in
  expand-list mode it appends an empty \<^verbatim>\<open>ul\<close> element and no placeholder.  Either
  way no recursive call is made.
\<close>

theorem empty_array_render:
  assumes "heap s a = HArray kind []" and "depth \<le> maxRecursiveRenderDepth E"
  shows "renderValue E (LRef a) cont expandList ctx depth s =
           (cont @ [if expandList
                    then Element ''ul''
                           [''dataview'', ''dataview-ul'',
                            if ctx = CtxList then ''dataview-result-list-ul''
                            else ''dataview-result-list-root-ul''] []
                    else Text ''<empty list>''],
            None, s\<lparr>calls := calls s @ [Call (LRef a) expandList ctx depth []]\<rparr>)"
proof (cases expandList)
  case True
  then show ?thesis
    using assms by (simp add: renderValue_array_expand [where kind = kind and elems = "[]"])
next
  case False
  then show ?thesis
    using assms by (simp add: renderValue_array_empty [where kind = kind])
qed

theorem empty_array_render_witness:
  "heap demoState 1 = HArray NativeArray [] \<and> 0 \<le> maxRecursiveRenderDepth (demoEnv 3) \<and>
   renderValue (demoEnv 3) (LRef 1) [] False CtxRoot 0 demoState =
     ([Text ''<empty list>''], None, demoState\<lparr>calls := [Call (LRef 1) False CtxRoot 0 []]\<rparr>)"
  using empty_array_render [of demoState 1 NativeArray 0 "demoEnv 3" "[]" False CtxRoot]
  by (simp add: demoState_def demoHeap_def demoEnv_def)

text \<open>
  The claim as worded, that expand-list mode too yields the placeholder and no list
  element, fails on the empty array of the example store.
\<close>

theorem empty_array_expand_counterexample:
  "fst (renderValue (demoEnv 3) (LRef 1) [] True CtxRoot 0 demoState) =
     [Element ''ul'' [''dataview'', ''dataview-ul'', ''dataview-result-list-root-ul''] []] \<and>
   fst (renderValue (demoEnv 3) (LRef 1) [] True CtxRoot 0 demoState) \<noteq> [Text ''<empty list>'']"
  by (simp add: renderValue_array_expand [where kind = NativeArray and elems = "[]"]
        demoState_def demoHeap_def demoEnv_def)

section \<open>C2: a parse that raises\<close>

text \<open>
  C2 (as the code has it): the handler posts exactly one message when the parse routine
  returns.  When the parse routine raises, nothing catches the exception: it leaves the
  handler, and no message is posted.
\<close>

theorem onmessage_outcomes:
  "(\<forall>v. runImport (path evt) (contents evt) (metadata evt) = Inr v \<longrightarrow>
        onmessage runImport transferable evt posted =
          (posted @ [\<lparr>path = path evt, result = transferable v\<rparr>], None)) \<and>
   (\<forall>e. runImport (path evt) (contents evt) (metadata evt) = Inl e \<longrightarrow>
        onmessage runImport transferable evt posted = (posted, Some e))"
  by (simp add: onmessage_def)

theorem onmessage_outcomes_witness:
  "(\<lambda>p c m. if c = [] then Inl ''ParseFailure'' else Inr (length c)) ''a.md'' [] () =
     Inl ''ParseFailure'' \<and>
   onmessage (\<lambda>p c m. if c = [] then Inl ''ParseFailure'' else Inr (length c)) Suc
       \<lparr>path = ''a.md'', contents = [], metadata = ()\<rparr> [] = ([], Some ''ParseFailure'') \<and>
   (\<lambda>p c m. if c = [] then Inl ''ParseFailure'' else Inr (length c)) ''b.md'' ''abc'' () =
     Inr 3 \<and>
   onmessage (\<lambda>p c m. if c = [] then Inl ''ParseFailure'' else Inr (length c)) Suc
       \<lparr>path = ''b.md'', contents = ''abc'', metadata = ()\<rparr> [] =
     ([\<lparr>path = ''b.md'', result = 4\<rparr>], None)"
  using onmessage_outcomes
          [of "\<lambda>p c m. if c = [] then Inl ''ParseFailure'' else Inr (length c)"
              "\<lparr>path = ''a.md'', contents = [], metadata = ()\<rparr>" Suc "[]"]
        onmessage_outcomes
          [of "\<lambda>p c m. if c = [] then Inl ''ParseFailure'' else Inr (length c)"
              "\<lparr>path = ''b.md'', contents = ''abc'', metadata = ()\<rparr>" Suc "[]"]
  by simp

text \<open>
  The claim as worded, that a reply is sent even when the parse routine raises, fails:
  a job whose parse raises gets no reply at all.
\<close>

theorem onmessage_raise_counterexample:
  "fst (onmessage (\<lambda>p c m. Inl ''ParseFailure'' :: string + nat) Suc
          \<lparr>path = ''a.md'', contents = ''abc'', metadata = ()\<rparr> []) = [] \<and>
   snd (onmessage (\<lambda>p c m. Inl ''ParseFailure'' :: string + nat) Suc
          \<lparr>path = ''a.md'', contents = ''abc'', metadata = ()\<rparr> []) = Some ''ParseFailure''"
  by (simp add: onmessage_def)

section \<open>C3: the depth guard\<close>

text \<open>
  C3 (as the code has it): with maximum \<open>k\<close>, the guard fires when the depth argument
  exceeds \<open>k\<close>, so the first depth that is cut off is \<open>k + 1\<close>, not \<open>k\<close>.  A call whose
  depth exceeds the maximum appends the text \<^verbatim>\<open>...\<close> and returns: it does not look at
  the value and calls nothing.  Hence, whatever the store holds, cycles included, no
  invocation below a call has a depth above \<open>k + 1\<close> (or above the depth the call
  itself was given), and those above \<open>k\<close> have no invocations below them.  And when
  the value is nested to a depth that crosses the guard, a render that returns has an
  invocation at depth \<open>k + 1\<close>, which is one that appends the placeholder.
\<close>

theorem depth_guard_bounds_recursion:
  assumes "renderValue E field cont expandList ctx depth s = (c, x, s')"
  shows "(maxRecursiveRenderDepth E < depth \<longrightarrow>
            c = cont @ [Text ''...''] \<and> x = None \<and>
            s' = s\<lparr>calls := calls s @ [Call field expandList ctx depth []]\<rparr>) \<and>
         (\<exists>t. calls s' = calls s @ [t] \<and>
              (\<forall>u \<in> set (invocations t).
                 depthOf u \<le> max depth (maxRecursiveRenderDepth E + 1) \<and>
                 (maxRecursiveRenderDepth E < depthOf u \<longrightarrow> subcalls u = [])) \<and>
              (x = None \<and> nestedTo (heap s) field n \<and>
               depth \<le> maxRecursiveRenderDepth E + 1 \<and>
               maxRecursiveRenderDepth E + 1 \<le> depth + n \<longrightarrow>
                 (\<exists>u \<in> set (invocations t). depthOf u = maxRecursiveRenderDepth E + 1)))"
proof
  show "maxRecursiveRenderDepth E < depth \<longrightarrow>
            c = cont @ [Text ''...''] \<and> x = None \<and>
            s' = s\<lparr>calls := calls s @ [Call field expandList ctx depth []]\<rparr>"
    using assms by (auto simp: renderValue_guard)
next
  let ?k = "maxRecursiveRenderDepth E"
  from recorded_calls(1) [OF assms] obtain subs where
    c: "calls s' = calls s @ [Call field expandList ctx depth subs]"
    and g: "?k < depth \<longrightarrow> subs = []"
    and u: "\<forall>u \<in> set subs. calledFrom E depth u"
    by blast
  let ?t = "Call field expandList ctx depth subs"
  have "listCalls ?t" "guardedCalls ?k ?t"
    using g u by (simp_all add: calledFrom_def)
  from invocations_below [OF this]
  have bound: "\<forall>u \<in> set (invocations ?t).
           depthOf u \<le> max depth (?k + 1) \<and> (?k < depthOf u \<longrightarrow> subcalls u = [])"
    by simp
  have reach: "\<exists>u \<in> set (invocations ?t). depthOf u = ?k + 1"
    if "x = None" "nestedTo (heap s) field n" "depth \<le> ?k + 1" "?k + 1 \<le> depth + n"
    using guard_reached(1) [OF assms [unfolded that(1)] that(2,3,4)] c by auto
  show "\<exists>t. calls s' = calls s @ [t] \<and>
              (\<forall>u \<in> set (invocations t).
                 depthOf u \<le> max depth (?k + 1) \<and> (?k < depthOf u \<longrightarrow> subcalls u = [])) \<and>
              (x = None \<and> nestedTo (heap s) field n \<and> depth \<le> ?k + 1 \<and> ?k + 1 \<le> depth + n \<longrightarrow>
                 (\<exists>u \<in> set (invocations t). depthOf u = ?k + 1))"
    using c bound reach by blast
qed

theorem depth_guard_bounds_recursion_witness:
  "renderValue (demoEnv 1) (LRef 0) [] True CtxRoot 0 demoState =
     ([Element ''ul'' [''dataview'', ''dataview-ul'', ''dataview-result-list-root-ul'']
        [Element ''li'' [''dataview-result-list-li''] [Element ''span'' [] [Text ''x'']],
         Element ''li'' [''dataview-result-list-li'']
          [Element ''ul'' [''dataview'', ''dataview-ul'', ''dataview-result-list-ul'']
            [Element ''li'' [''dataview-result-list-li''] [Text ''...''],
             Element ''li'' [''dataview-result-list-li''] [Text ''...'']]]]],
      None,
      demoState\<lparr>calls :=
        [Call (LRef 0) True CtxRoot 0
          [Call (LString ''x'') True CtxList 1 [],
           Call (LRef 0) True CtxList 1
            [Call (LString ''x'') True CtxList 2 [], Call (LRef 0) True CtxList 2 []]]]\<rparr>) \<and>
   nestedTo (heap demoState) (LRef 0) (Suc (Suc 0)) \<and>
   0 \<le> maxRecursiveRenderDepth (demoEnv 1) + 1 \<and>
   maxRecursiveRenderDepth (demoEnv 1) + 1 \<le> 0 + Suc (Suc 0) \<and>
   (\<exists>u \<in> set (invocations
        (Call (LRef 0) True CtxRoot 0
          [Call (LString ''x'') True CtxList 1 [],
           Call (LRef 0) True CtxList 1
            [Call (LString ''x'') True CtxList 2 [], Call (LRef 0) True CtxList 2 []]])).
      depthOf u = maxRecursiveRenderDepth (demoEnv 1) + 1) \<and>
   maxRecursiveRenderDepth (demoEnv 1) < 2 \<and>
   renderValue (demoEnv 1) (LRef 0) [] True CtxList 2 demoState =
     ([Text ''...''], None, demoState\<lparr>calls := [Call (LRef 0) True CtxList 2 []]\<rparr>)"
proof -
  have eq: "renderValue (demoEnv 1) (LRef 0) [] True CtxRoot 0 demoState =
     ([Element ''ul'' [''dataview'', ''dataview-ul'', ''dataview-result-list-root-ul'']
        [Element ''li'' [''dataview-result-list-li''] [Element ''span'' [] [Text ''x'']],
         Element ''li'' [''dataview-result-list-li'']
          [Element ''ul'' [''dataview'', ''dataview-ul'', ''dataview-result-list-ul'']
            [Element ''li'' [''dataview-result-list-li''] [Text ''...''],
             Element ''li'' [''dataview-result-list-li''] [Text ''...'']]]]],
      None,
      demoState\<lparr>calls :=
        [Call (LRef 0) True CtxRoot 0
          [Call (LString ''x'') True CtxList 1 [],
           Call (LRef 0) True CtxList 1
            [Call (LString ''x'') True CtxList 2 [], Call (LRef 0) True CtxList 2 []]]]\<rparr>)"
    by (simp add: renderValue.simps renderCompactMarkdown_def querySelector_def children_def
          demoEnv_def demoRenderer_def demoState_def demoHeap_def)
  obtain c x s' where eq2: "renderValue (demoEnv 1) (LRef 0) [] True CtxList 2 demoState = (c, x, s')"
    by (cases "renderValue (demoEnv 1) (LRef 0) [] True CtxList 2 demoState") auto
  have n: "nestedTo (heap demoState) (LRef 0) (Suc (Suc 0))"
    by (auto simp: demoState_def demoHeap_def)
  have lt: "maxRecursiveRenderDepth (demoEnv 1) < 2" by (simp add: demoEnv_def)
  from depth_guard_bounds_recursion [OF eq, of "Suc (Suc 0)"] n
  have "\<exists>u \<in> set (invocations
        (Call (LRef 0) True CtxRoot 0
          [Call (LString ''x'') True CtxList 1 [],
           Call (LRef 0) True CtxList 1
            [Call (LString ''x'') True CtxList 2 [], Call (LRef 0) True CtxList 2 []]])).
      depthOf u = maxRecursiveRenderDepth (demoEnv 1) + 1"
    by (simp add: demoEnv_def demoState_def)
  moreover from depth_guard_bounds_recursion [OF eq2, of 0] lt eq2
  have "renderValue (demoEnv 1) (LRef 0) [] True CtxList 2 demoState =
     ([Text ''...''], None, demoState\<lparr>calls := [Call (LRef 0) True CtxList 2 []]\<rparr>)"
    by (simp add: demoState_def)
  ultimately show ?thesis using eq n lt by (simp add: demoEnv_def)
qed

text \<open>
  The claim as worded puts the placeholder at depth \<open>k\<close> with no call beyond it.  With
  maximum 0 and a one-element array, the call at depth 0 renders the array and calls
  itself at depth 1; the placeholder comes from that call.
\<close>

theorem depth_guard_counterexample:
  "renderValue (demoEnv 0) (LRef 5) [] False CtxRoot 0 demoState =
     ([Element ''span'' [''dataview'', ''dataview-result-list-span''] [Text ''...'']], None,
      demoState\<lparr>calls :=
        [Call (LRef 5) False CtxRoot 0 [Call (LString ''x'') False CtxList 1 []]]\<rparr>) \<and>
   fst (renderValue (demoEnv 0) (LRef 5) [] False CtxRoot 0 demoState) \<noteq> [Text ''...'']"
  by (simp add: renderValue.simps demoEnv_def demoState_def demoHeap_def)

section \<open>C4: instances of named classes\<close>

text \<open>
  C4: within the depth bound, an object whose constructor has a name other than
  \<^verbatim>\<open>Object\<close> is rendered as exactly the text \<^verbatim>\<open><Name>\<close>, and \<^verbatim>\<open>renderValue\<close> returns
  without a single recursive call: the recorded invocation has no sub-invocations,
  whatever the object's entries are.
\<close>

theorem named_class_object_placeholder:
  assumes "heap s a = HObject (Some name) entries"
      and "name \<noteq> []" and "name \<noteq> ''Object''"
      and "depth \<le> maxRecursiveRenderDepth E"
  shows "renderValue E (LRef a) cont expandList ctx depth s =
           (cont @ [Text (''<'' @ name @ ''>'')], None,
            s\<lparr>calls := calls s @ [Call (LRef a) expandList ctx depth []]\<rparr>)"
  using assms
  by (simp add: renderValue_object_foreign [where ctor = "Some name" and entries = entries]
        namedClass_def)

theorem named_class_object_placeholder_witness:
  "heap demoState 3 = HObject (Some ''Widget'') [(''self'', LRef 3)] \<and>
   ''Widget'' \<noteq> [] \<and> ''Widget'' \<noteq> ''Object'' \<and> 0 \<le> maxRecursiveRenderDepth (demoEnv 3) \<and>
   renderValue (demoEnv 3) (LRef 3) [] True CtxRoot 0 demoState =
     ([Text ''<Widget>''], None, demoState\<lparr>calls := [Call (LRef 3) True CtxRoot 0 []]\<rparr>)"
  using named_class_object_placeholder
          [of demoState 3 "''Widget''" "[(''self'', LRef 3)]" 0 "demoEnv 3" "[]" True CtxRoot]
  by (simp add: demoState_def demoHeap_def demoEnv_def)

section \<open>C5: order of the output\<close>



section \<open>C6: a paragraph that is not a child of the wrapper\<close>

text \<open>
  C6: the paragraph is looked up among all descendants of the wrapper, not among its
  children.  When the single child element is not a paragraph but has one inside, as
  for a block quote, the paragraph's children are moved to the end of the wrapper and
  \<^verbatim>\<open>removeChild\<close> then raises, because the paragraph is not a child of the wrapper: the
  rendered content is neither unwrapped nor left as it was.
\<close>

theorem renderCompactMarkdown_nested_paragraph:
  "renderMarkdown (demoEnv 3) ''> q'' (originFile (demoEnv 3)) =
     [Element ''blockquote'' [] [Element ''p'' [] [Text ''q'']]] \<and>
   renderCompactMarkdown (demoEnv 3) ''> q'' [] =
     ([Element ''span'' [] [Element ''blockquote'' [] [Element ''p'' [] []], Text ''q'']],
      Some NotFoundError)"
  by (simp add: renderCompactMarkdown_def querySelector_def children_def demoEnv_def
        demoRenderer_def)

section \<open>C7: the worker's reply\<close>



section \<open>C8: a render that raises\<close>

text \<open>
  C8: a string whose markdown is a block quote is a well-typed value within the depth
  bound, and rendering it raises \<^verbatim>\<open>NotFoundError\<close> out of \<^verbatim>\<open>renderValue\<close>.
\<close>

theorem renderValue_block_quote_raises:
  "renderValue (demoEnv 3) (LString ''> q'') [] False CtxRoot 0 demoState =
     ([Element ''span'' [] [Element ''blockquote'' [] [Element ''p'' [] []], Text ''q'']],
      Some NotFoundError,
      demoState\<lparr>calls := [Call (LString ''> q'') False CtxRoot 0 []]\<rparr>)"
  by (simp add: renderValue.simps renderCompactMarkdown_def querySelector_def children_def
        demoEnv_def demoRenderer_def demoState_def)

section \<open>C9: the value is only read\<close>



section \<open>C10: context and depth of recursive calls\<close>

text \<open>
  C10: every call that \<^verbatim>\<open>renderValue\<close> makes to itself, from any of its four loops,
  passes the context \<^verbatim>\<open>"list"\<close> and its own depth plus one, and the same holds for the
  calls made by those calls.  So every invocation below the outermost one has
  context \<^verbatim>\<open>"list"\<close>: \<^verbatim>\<open>"root"\<close> can only be the context of the outermost invocation.
\<close>

theorem recursive_calls_use_list_context:
  assumes "renderValue E field cont expandList ctx depth s = (c, x, s')"
  shows "\<exists>subs. calls s' = calls s @ [Call field expandList ctx depth subs] \<and>
           listCalls (Call field expandList ctx depth subs) \<and>
           (\<forall>v \<in> set subs. \<forall>u \<in> set (invocations v). contextOf u = CtxList)"
proof -
  from recorded_calls(1) [OF assms] obtain subs where
    c: "calls s' = calls s @ [Call field expandList ctx depth subs]"
    and u: "\<forall>u \<in> set subs. calledFrom E depth u"
    by blast
  from u have l: "listCalls (Call field expandList ctx depth subs)"
    by (simp add: calledFrom_def)
  have "\<forall>v \<in> set subs. \<forall>u \<in> set (invocations v). contextOf u = CtxList"
    using list_context_below [OF l] by simp
  with c l show ?thesis by blast
qed

theorem recursive_calls_use_list_context_witness:
  "renderValue (demoEnv 1) (LRef 0) [] False CtxRoot 0 demoState =
     ([Element ''span'' [''dataview'', ''dataview-result-list-span'']
        [Element ''span'' [] [Text ''x''], Text '', '',
         Element ''span'' [''dataview'', ''dataview-result-list-span'']
          [Text ''...'', Text '', '', Text ''...'']]],
      None,
      demoState\<lparr>calls :=
        [Call (LRef 0) False CtxRoot 0
          [Call (LString ''x'') False CtxList 1 [],
           Call (LRef 0) False CtxList 1
            [Call (LString ''x'') False CtxList 2 [], Call (LRef 0) False CtxList 2 []]]]\<rparr>) \<and>
   listCalls
     (Call (LRef 0) False CtxRoot 0
       [Call (LString ''x'') False CtxList 1 [],
        Call (LRef 0) False CtxList 1
         [Call (LString ''x'') False CtxList 2 [], Call (LRef 0) False CtxList 2 []]])"
proof -
  have eq: "renderValue (demoEnv 1) (LRef 0) [] False CtxRoot 0 demoState =
     ([Element ''span'' [''dataview'', ''dataview-result-list-span'']
        [Element ''span'' [] [Text ''x''], Text '', '',
         Element ''span'' [''dataview'', ''dataview-result-list-span'']
          [Text ''...'', Text '', '', Text ''...'']]],
      None,
      demoState\<lparr>calls :=
        [Call (LRef 0) False CtxRoot 0
          [Call (LString ''x'') False CtxList 1 [],
           Call (LRef 0) False CtxList 1
            [Call (LString ''x'') False CtxList 2 [], Call (LRef 0) False CtxList 2 []]]]\<rparr>)"
    by (simp add: renderValue.simps renderCompactMarkdown_def querySelector_def children_def
          demoEnv_def demoRenderer_def demoState_def demoHeap_def)
  from recursive_calls_use_list_context [OF eq] eq show ?thesis
    by (simp add: demoState_def)
qed

end
